theory Spec2Isabelle
  imports Complex_Main "HOL-Library.Sublist"
begin

section \<open>Strings of the host language\<close>

text \<open>
  Strings are modelled as \<open>string\<close> (lists of 8-bit characters), read as code units of
  the Latin-1 range. Within that range the white space of \<open>trim\<close>, \<open>trimStart\<close>,
  \<open>trimEnd\<close> and of the regular expression class \<open>\s\<close> is TAB, LF, VT, FF, CR, SPACE
  and NBSP.
\<close>

datatype js_error = TypeError

definition is_ws :: "char \<Rightarrow> bool" where
  "is_ws c = (of_char c \<in> {9, 10, 11, 12, 13, 32, 160 :: nat})"

definition startsWith :: "string \<Rightarrow> string \<Rightarrow> bool" where
  "startsWith s p = (take (length p) s = p)"

definition trimStart :: "string \<Rightarrow> string" where
  "trimStart s = dropWhile is_ws s"

definition trimEnd :: "string \<Rightarrow> string" where
  "trimEnd s = rev (dropWhile is_ws (rev s))"

definition trim :: "string \<Rightarrow> string" where
  "trim s = trimEnd (trimStart s)"

text \<open>\<open>s.indexOf(pat)\<close>: the position of the leftmost occurrence, if there is one.\<close>

fun indexOf :: "string \<Rightarrow> string \<Rightarrow> nat option" where
  "indexOf [] pat = (if pat = [] then Some 0 else None)"
| "indexOf (c # cs) pat =
     (if startsWith (c # cs) pat then Some 0 else map_option Suc (indexOf cs pat))"

lemma indexOf_bound:
  "indexOf s pat = Some i \<Longrightarrow> i + length pat \<le> length s"
proof (induction s arbitrary: i)
  case Nil
  then show ?case by (simp split: if_splits)
next
  case (Cons c cs)
  show ?case
  proof (cases "startsWith (c # cs) pat")
    case True
    then have "length (take (length pat) (c # cs)) = length pat"
      unfolding startsWith_def by simp
    then have "length pat \<le> length (c # cs)"
      by simp
    with True Cons.prems show ?thesis by simp
  next
    case False
    with Cons.prems obtain j where "indexOf cs pat = Some j" "i = Suc j"
      by auto
    with Cons.IH show ?thesis by simp
  qed
qed

text \<open>
  \<open>s.split(pat)\<close> with a string separator: the pieces between the successive leftmost
  occurrences of the separator; with the empty separator, the single code units.
\<close>

function js_split :: "string \<Rightarrow> string \<Rightarrow> string list" where
  "js_split s pat =
     (if pat = [] then map (\<lambda>c. [c]) s
      else case indexOf s pat of
             None \<Rightarrow> [s]
           | Some i \<Rightarrow> take i s # js_split (drop (i + length pat) s) pat)"
  by pat_completeness auto
termination
proof (relation "measure (\<lambda>(s, pat). length s)")
  show "wf (measure (\<lambda>(s, pat). length s))" by simp
next
  fix s pat :: string and i :: nat
  assume ne: "pat \<noteq> []" and idx: "indexOf s pat = Some i"
  from ne have "0 < length pat" by simp
  with indexOf_bound [OF idx] have "length s - (i + length pat) < length s"
    by arith
  then show "((drop (i + length pat) s, pat), (s, pat)) \<in> measure (\<lambda>(s, pat). length s)"
    by simp
qed

declare js_split.simps [simp del]

text \<open>\<open>parts.join(sep)\<close>.\<close>

fun js_join :: "string list \<Rightarrow> string \<Rightarrow> string" where
  "js_join [] sep = []"
| "js_join [x] sep = x"
| "js_join (x # y # ys) sep = x @ sep @ js_join (y # ys) sep"

text \<open>
  \<open>s.split(re)\<close> for a regular expression \<open>re\<close> of the form \<open>[class]+\<close>, the class
  given as a predicate: the string is cut at every maximal run of characters of the
  class. A run at the start or at the end leaves an empty piece there, and the empty
  string gives one empty piece.
\<close>

function split_runs :: "(char \<Rightarrow> bool) \<Rightarrow> string \<Rightarrow> string \<Rightarrow> string list" where
  "split_runs sep cur [] = [cur]"
| "split_runs sep cur (c # cs) =
     (if sep c then cur # split_runs sep [] (dropWhile sep cs)
      else split_runs sep (cur @ [c]) cs)"
  by pat_completeness auto
termination
  by (relation "measure (\<lambda>(sep, cur, s). length s)")
     (auto simp: le_imp_less_Suc length_dropWhile_le)

definition regex_split :: "(char \<Rightarrow> bool) \<Rightarrow> string \<Rightarrow> string list" where
  "regex_split sep s = split_runs sep [] s"

text \<open>The class \<open>[a-zA-Z0-9]\<close>.\<close>

definition is_alnum :: "char \<Rightarrow> bool" where
  "is_alnum c =
     (let n = (of_char c :: nat)
      in (48 \<le> n \<and> n \<le> 57) \<or> (65 \<le> n \<and> n \<le> 90) \<or> (97 \<le> n \<and> n \<le> 122))"

text \<open>
  \<open>toLowerCase\<close> and \<open>toUpperCase\<close>, on the ASCII letters. In \<open>camelize\<close> they are
  applied to words cut at \<open>[^a-zA-Z0-9]+\<close>, which hold ASCII letters and digits only.
\<close>

definition toLowerChar :: "char \<Rightarrow> char" where
  "toLowerChar c =
     (let n = (of_char c :: nat) in if 65 \<le> n \<and> n \<le> 90 then char_of (n + 32) else c)"

definition toUpperChar :: "char \<Rightarrow> char" where
  "toUpperChar c =
     (let n = (of_char c :: nat) in if 97 \<le> n \<and> n \<le> 122 then char_of (n - 32) else c)"

definition toLowerCase :: "string \<Rightarrow> string" where
  "toLowerCase s = map toLowerChar s"

definition toUpperCase :: "string \<Rightarrow> string" where
  "toUpperCase s = map toUpperChar s"

section \<open>The quick-pick string parser\<close>

text \<open>
  The object literals returned by \<open>_strToQP\<close>: a property that a literal does not
  mention is absent (\<open>None\<close>).
\<close>

record quick_pick_item =
  label :: string
  kind :: "string option"
  alwaysShow :: "bool option"
  description :: "string option"
  detail :: "string option"

text \<open>
  The local lambda \<open>split\<close> of \<open>_strToQP\<close>: at most two parts, the second one holding the
  rest of the string.
\<close>

definition split2 :: "string \<Rightarrow> string \<Rightarrow> string list" where
  "split2 s pattern =
     (let parts = js_split s pattern
      in if length parts > 2 then [parts ! 0, js_join (drop 1 parts) pattern] else parts)"

text \<open>
  \<open>_strToQP\<close>. Reading index 0 of an empty array gives \<open>undefined\<close>, whose use as a
  string raises \<open>TypeError\<close>; index 1 is read only when the array has more than one
  element.
\<close>

definition strToQP :: "string \<Rightarrow> js_error + quick_pick_item" where
  "strToQP text =
     (if startsWith text ''-----''
      then Inr \<lparr>label = trimStart (take 5 text), kind = Some ''SEP'',
                alwaysShow = None, description = None, detail = None\<rparr>
      else
        let firstSplit = split2 text ''::'' in
        case firstSplit of
          [] \<Rightarrow> Inl TypeError
        | l # after \<Rightarrow>
            let (d1, text1) = (case after of [] \<Rightarrow> ([], l) | d # _ \<Rightarrow> (d, d));
                secondSplit = split2 text1 ''??'';
                (d2, dt) =
                  (if length secondSplit > 1
                   then (if d1 \<noteq> [] then secondSplit ! 0 else d1, secondSplit ! 1)
                   else (d1, []))
            in Inr \<lparr>label = trim l, kind = None, alwaysShow = Some True,
                     description = Some (trim d2), detail = Some (trim dt)\<rparr>)"

text \<open>
  The remainder that is searched for the second delimiter: the part after the first
  \<open>::\<close>, or the whole string when there is none.
\<close>

definition remainder :: "string \<Rightarrow> string" where
  "remainder text =
     (case indexOf text ''::'' of None \<Rightarrow> text | Some i \<Rightarrow> drop (i + 2) text)"

text \<open>A string with no white space at either end.\<close>

definition trimmed :: "string \<Rightarrow> bool" where
  "trimmed s = (s = [] \<or> (\<not> is_ws (hd s) \<and> \<not> is_ws (last s)))"

section \<open>Text utilities\<close>

text \<open>
  \<open>text.match(/^_+/)\<close> and \<open>text.match(/_+$/)\<close>: the leading and the trailing run of
  underscores, \<open>null\<close> (here \<open>None\<close>) when the run is empty.
\<close>

definition match_leading_underscores :: "string \<Rightarrow> string option" where
  "match_leading_underscores text =
     (let m = takeWhile (\<lambda>c. c = CHR ''_'') text in if m = [] then None else Some m)"

definition match_trailing_underscores :: "string \<Rightarrow> string option" where
  "match_trailing_underscores text =
     (let m = rev (takeWhile (\<lambda>c. c = CHR ''_'') (rev text))
      in if m = [] then None else Some m)"

text \<open>The map over the other words: \<open>w.charAt(0).toUpperCase() + w.slice(1).toLowerCase()\<close>.\<close>

definition capitalize :: "string \<Rightarrow> string" where
  "capitalize w = toUpperCase (take 1 w) @ toLowerCase (drop 1 w)"

text \<open>
  \<open>camelize\<close>. \<open>words[0]\<close> of an empty array is \<open>undefined\<close>, and calling
  \<open>toLowerCase\<close> on it raises \<open>TypeError\<close>.
\<close>

definition camelize :: "string \<Rightarrow> bool \<Rightarrow> js_error + string" where
  "camelize text keepOuterUnderscores =
     (let startUnderscores =
            (if keepOuterUnderscores
             then (case match_leading_underscores text of Some m \<Rightarrow> m | None \<Rightarrow> [])
             else []);
          endUnderscores =
            (if keepOuterUnderscores
             then (case match_trailing_underscores text of Some m \<Rightarrow> m | None \<Rightarrow> [])
             else []);
          words = filter (\<lambda>w. w \<noteq> []) (regex_split (\<lambda>c. \<not> is_alnum c) (trim text))
      in case words of
           [] \<Rightarrow> Inl TypeError
         | firstWord # rest \<Rightarrow>
             Inr (startUnderscores @ toLowerCase firstWord @
                  js_join (map capitalize rest) [] @ endUnderscores))"

text \<open>
  \<open>withinCharLimit\<close>. The loop over the words carries \<open>lines\<close> and \<open>currentLine\<close>;
  the limit is taken as an integer number of characters. The result is the array of
  lines or the lines joined by a newline, by \<open>asArray\<close>.
\<close>

datatype lines_result = Lines "string list" | Joined string

fun withinCharLimit_loop ::
  "string \<Rightarrow> int \<Rightarrow> string list \<Rightarrow> string \<Rightarrow> string list \<Rightarrow> string list \<times> string" where
  "withinCharLimit_loop prefix0 limit lines currentLine [] = (lines, currentLine)"
| "withinCharLimit_loop prefix0 limit lines currentLine (word # ws) =
     (if int (length currentLine) + int (length word) > limit
      then withinCharLimit_loop prefix0 limit (lines @ [trimEnd currentLine]) prefix0 ws
      else withinCharLimit_loop prefix0 limit lines (currentLine @ word @ '' '') ws)"

definition withinCharLimit :: "string \<Rightarrow> int \<Rightarrow> string \<Rightarrow> bool \<Rightarrow> lines_result" where
  "withinCharLimit text limit prefix0 asArray =
     (let (lines, currentLine) =
            withinCharLimit_loop prefix0 limit [] prefix0 (regex_split is_ws text);
          lines = (if currentLine \<noteq> [] then lines @ [trimEnd currentLine] else lines)
      in if asArray then Lines lines else Joined (js_join lines [CHR 0x0A]))"

section \<open>The timed progress simulator\<close>

text \<open>
  \<open>temporaryMessage\<close> is modelled on a virtual clock, in milliseconds since the
  invocation. The world holds the pending timers of the runtime, the calls of
  \<open>progress.report\<close> and of \<open>clearInterval\<close> made so far, each with the clock value at
  which it was made, and the variables \<open>percentage\<close>, \<open>tick\<close> and \<open>tickLoop\<close>.

  The three closures handed to the timers are \<open>TickCb\<close> (the arrow function of
  \<open>setInterval\<close>), \<open>JumpCb\<close> (the arrow function of the \<open>setTimeout\<close> guarded by
  \<open>endLength > 0\<close>) and \<open>ResolveCb\<close> (the resolver \<open>r\<close> of the awaited promise, whose
  call completes the operation that \<open>temporaryMessage\<close> returns).

  The parameters are the duration \<open>time\<close> and the options \<open>ticks\<close> and \<open>endLength\<close>.
  The title \<open>message\<close> and the option \<open>cancellable\<close> go to the host and touch no
  timer (the cancellation token is never read). The secondary message computed by
  \<open>updateMessage\<close>, and \<open>msLeft\<close> and \<open>currentMSLeft\<close> that only feed it, are left
  out.

  The numbers \<open>time\<close>, \<open>ticks\<close> and \<open>endLength\<close> are rationals, whole or not, and so are
  \<open>percentage\<close> and the increments: the doubles of the code without rounding, \<open>NaN\<close>
  and the infinities. The sums of the increments \<open>100 / ticks\<close> are therefore exact
  here where the code rounds them, and \<open>100 / 0\<close> is 0 here where the code has
  \<open>Infinity\<close>; what is proved below of \<open>percentage\<close> and of the reports uses the values
  0, 100 and \<open>100 / 10\<close> only, which are the same in both.
\<close>

datatype callback = TickCb | JumpCb | ResolveCb

datatype report_source = Initial | Tick | Jump

datatype host = TaskInline | TaskDeferred

record timer =
  timer_id :: int
  due :: int
  period :: "int option"
  action :: callback

record world =
  clock :: int
  timers :: "timer list"
  next_id :: int
  reports :: "(int \<times> report_source \<times> rat) list"
  percentage :: rat
  tick :: int
  tickLoop :: int
  resolved_at :: "int option"
  cleared :: "(int \<times> int) list"

text \<open>
  The delay of a timer, as Node.js sets it: a delay below 1 or above 2147483647 becomes
  1, any other delay is truncated to an integer.
\<close>

definition node_delay :: "rat \<Rightarrow> int" where
  "node_delay d = (if d < 1 \<or> 2147483647 < d then 1 else \<lfloor>d\<rfloor>)"

definition setInterval :: "callback \<Rightarrow> rat \<Rightarrow> world \<Rightarrow> int \<times> world" where
  "setInterval cb d w =
     (let p = node_delay d; i = next_id w
      in (i, w\<lparr>timers := timers w @
                  [\<lparr>timer_id = i, due = clock w + p, period = Some p, action = cb\<rparr>],
                next_id := i + 1\<rparr>))"

definition setTimeout :: "callback \<Rightarrow> rat \<Rightarrow> world \<Rightarrow> int \<times> world" where
  "setTimeout cb d w =
     (let p = node_delay d; i = next_id w
      in (i, w\<lparr>timers := timers w @
                  [\<lparr>timer_id = i, due = clock w + p, period = None, action = cb\<rparr>],
                next_id := i + 1\<rparr>))"

definition clearInterval :: "int \<Rightarrow> world \<Rightarrow> world" where
  "clearInterval i w =
     w\<lparr>timers := filter (\<lambda>t. timer_id t \<noteq> i) (timers w),
       cleared := cleared w @ [(clock w, i)]\<rparr>"

definition report :: "report_source \<Rightarrow> rat \<Rightarrow> world \<Rightarrow> world" where
  "report src inc w = w\<lparr>reports := reports w @ [(clock w, src, inc)]\<rparr>"

text \<open>The bodies of the three closures.\<close>

definition run_callback :: "rat \<Rightarrow> callback \<Rightarrow> world \<Rightarrow> world" where
  "run_callback ticks cb w =
     (case cb of
        TickCb \<Rightarrow>
          report Tick (100 / ticks)
            (w\<lparr>tick := tick w + 1,
               percentage := (if percentage w \<ge> 100 then 100
                              else percentage w + 100 / ticks)\<rparr>)
      | JumpCb \<Rightarrow> (report Jump 100 w)\<lparr>percentage := 100\<rparr>
      | ResolveCb \<Rightarrow>
          w\<lparr>resolved_at := (case resolved_at w of None \<Rightarrow> Some (clock w) | Some x \<Rightarrow> Some x)\<rparr>)"

text \<open>
  The event loop: the pending timer that is due first fires (of two timers due at the
  same time, the one earlier in the list), the clock moves to its due time, and an
  interval is armed again one period later.
\<close>

fun earliest :: "timer list \<Rightarrow> timer option" where
  "earliest [] = None"
| "earliest (t # ts) =
     (case earliest ts of
        None \<Rightarrow> Some t
      | Some u \<Rightarrow> if due t \<le> due u then Some t else Some u)"

definition fire :: "rat \<Rightarrow> timer \<Rightarrow> world \<Rightarrow> world" where
  "fire ticks t w =
     (let rest = remove1 t (timers w);
          rearmed = (case period t of
                       None \<Rightarrow> rest
                     | Some p \<Rightarrow> rest @ [t\<lparr>due := due t + max 1 p\<rparr>])
      in run_callback ticks (action t) (w\<lparr>clock := max (clock w) (due t), timers := rearmed\<rparr>))"

text \<open>
  \<open>run ticks horizon w\<close>: the world once every timer due at or before \<open>horizon\<close> has
  fired. It terminates because every firing removes a timer or moves it later.
\<close>

definition pending :: "int \<Rightarrow> timer \<Rightarrow> nat" where
  "pending horizon t = (if due t \<le> horizon then nat (horizon - due t) + 1 else 0)"


lemma earliest_in: "earliest ts = Some t \<Longrightarrow> t \<in> set ts"
  by (induction ts arbitrary: t) (auto split: option.splits if_splits)


lemma timers_run_callback [simp]: "timers (run_callback ticks cb w) = timers w"
  by (cases cb) (simp_all add: run_callback_def report_def)

lemma timers_fire:
  "timers (fire ticks t w) =
     (case period t of None \<Rightarrow> remove1 t (timers w)
      | Some p \<Rightarrow> remove1 t (timers w) @ [t\<lparr>due := due t + max 1 p\<rparr>])"
  by (simp add: fire_def Let_def)

lemma pending_fire:
  assumes "earliest (timers w) = Some t" "due t \<le> horizon"
  shows "sum_list (map (pending horizon) (timers (fire ticks t w)))
       < sum_list (map (pending horizon) (timers w))"
proof -
  from assms(1) have "t \<in> set (timers w)" by (rule earliest_in)
  then have s: "sum_list (map (pending horizon) (timers w)) =
      pending horizon t + sum_list (map (pending horizon) (remove1 t (timers w)))"
    by (rule sum_list_map_remove1)
  have p: "0 < pending horizon t" using assms(2) by (simp add: pending_def)
  show ?thesis
  proof (cases "period t")
    case None
    with s p show ?thesis by (simp add: timers_fire)
  next
    case (Some q)
    have "pending horizon (t\<lparr>due := due t + max 1 q\<rparr>) < pending horizon t"
      using assms(2) by (auto simp: pending_def max_def)
    with s Some show ?thesis by (simp add: timers_fire)
  qed
qed

function run :: "rat \<Rightarrow> int \<Rightarrow> world \<Rightarrow> world" where
  "run ticks horizon w =
     (case earliest (timers w) of
        None \<Rightarrow> w
      | Some t \<Rightarrow> if due t \<le> horizon then run ticks horizon (fire ticks t w) else w)"
  by pat_completeness auto
termination
  by (relation "measure (\<lambda>(ticks, horizon, w). sum_list (map (pending horizon) (timers w)))")
     (simp_all add: pending_fire)

declare run.simps [simp del]

text \<open>
  The function passed to \<open>withProgress\<close>, up to its \<open>await\<close>: it reports 0, starts the
  interval and stores its handle in \<open>tickLoop\<close>, starts the one-shot timer when
  \<open>endLength > 0\<close>, and starts the timer that resolves the awaited promise.
\<close>

definition start_world :: world where
  "start_world = \<lparr>clock = 0, timers = [], next_id = 1, reports = [], percentage = 0,
     tick = 0, tickLoop = - 1, resolved_at = None, cleared = []\<rparr>"

definition task :: "rat \<Rightarrow> rat \<Rightarrow> rat \<Rightarrow> world \<Rightarrow> world" where
  "task time ticks endLength w =
     (let w = report Initial 0 w;
          w = w\<lparr>percentage := 0, tick := 0\<rparr>;
          (i, w) = setInterval TickCb ((time - endLength) / ticks) w;
          w = w\<lparr>tickLoop := i\<rparr>;
          w = (if endLength > 0 then snd (setTimeout JumpCb (time - endLength) w) else w)
      in snd (setTimeout ResolveCb time w))"

text \<open>
  \<open>temporaryMessage\<close> sets \<open>tickLoop\<close> to \<open>-1\<close>, calls \<open>withProgress\<close>, then calls
  \<open>clearInterval(tickLoop)\<close> and returns, all in one synchronous run: no timer fires in
  between. How \<open>withProgress\<close> calls the function it is given is the host's choice and
  a parameter of the model: \<open>TaskInline\<close> calls it before \<open>withProgress\<close> returns (as
  the extension host of VS Code does), \<open>TaskDeferred\<close> calls it after the synchronous
  run of \<open>temporaryMessage\<close> is over, before any timer fires.
\<close>

definition temporaryMessage :: "host \<Rightarrow> rat \<Rightarrow> rat \<Rightarrow> rat \<Rightarrow> world" where
  "temporaryMessage h time ticks endLength =
     (let w = start_world\<lparr>tickLoop := - 1\<rparr>
      in case h of
           TaskInline \<Rightarrow>
             (let w = task time ticks endLength w in clearInterval (tickLoop w) w)
         | TaskDeferred \<Rightarrow>
             (let w = clearInterval (tickLoop w) w in task time ticks endLength w))"

text \<open>
  The reports made by the interval; the time at which the sum of the reported
  increments first reaches 100; and the time for which the indicator then stays at 100
  before the operation resolves.
\<close>

definition tick_reports :: "world \<Rightarrow> (int \<times> report_source \<times> rat) list" where
  "tick_reports w = filter (\<lambda>r. fst (snd r) = Tick) (reports w)"



section \<open>Splitting and joining\<close>

lemma indexOf_at: "indexOf s pat = Some i \<Longrightarrow> take (length pat) (drop i s) = pat"
  by (induction s arbitrary: i) (auto simp: startsWith_def split: if_splits)

lemma js_split_ne: "pat \<noteq> [] \<Longrightarrow> js_split s pat \<noteq> []"
  by (subst js_split.simps) (simp split: option.splits)

lemma js_join_Cons: "xs \<noteq> [] \<Longrightarrow> js_join (x # xs) sep = x @ sep @ js_join xs sep"
  by (cases xs) simp_all

text \<open>Joining the pieces of a split with the separator gives the string back.\<close>

lemma js_join_split: "pat \<noteq> [] \<Longrightarrow> js_join (js_split s pat) pat = s"
proof (induction s pat rule: js_split.induct)
  case (1 s pat)
  show ?case
  proof (cases "indexOf s pat")
    case None
    with 1 show ?thesis by (subst js_split.simps) simp
  next
    case (Some i)
    let ?rest = "drop (i + length pat) s"
    have sp: "js_split s pat = take i s # js_split ?rest pat"
      using Some "1.prems" by (subst js_split.simps) simp
    have ih: "js_join (js_split ?rest pat) pat = ?rest"
      using "1.IH" [OF "1.prems" Some] "1.prems" by simp
    have "pat = take (length pat) (drop i s)"
      using indexOf_at [OF Some] by simp
    then have "take i s @ pat @ ?rest = s"
      by (metis add.commute append_take_drop_id drop_drop)
    then show ?thesis
      using sp ih js_split_ne [OF "1.prems", of ?rest] by (simp add: js_join_Cons)
  qed
qed

text \<open>
  The two-part split cuts at the leftmost occurrence only: later occurrences stay, as
  they are, in the second part.
\<close>

lemma split2_char:
  assumes "pat \<noteq> []"
  shows "split2 s pat =
     (case indexOf s pat of None \<Rightarrow> [s] | Some i \<Rightarrow> [take i s, drop (i + length pat) s])"
proof (cases "indexOf s pat")
  case None
  then have "js_split s pat = [s]" using assms by (subst js_split.simps) simp
  with None show ?thesis by (simp add: split2_def)
next
  case (Some i)
  let ?rest = "drop (i + length pat) s"
  have sp: "js_split s pat = take i s # js_split ?rest pat"
    using Some assms by (subst js_split.simps) simp
  obtain y ys where r: "js_split ?rest pat = y # ys"
    using js_split_ne [OF assms, of ?rest] by (cases "js_split ?rest pat") auto
  have j: "js_join (y # ys) pat = ?rest"
    using js_join_split [OF assms, of ?rest] r by simp
  show ?thesis
  proof (cases ys)
    case Nil
    with j have "y = ?rest" by simp
    with sp r Nil Some show ?thesis by (simp add: split2_def)
  next
    case (Cons z zs)
    with sp r j Some show ?thesis by (simp add: split2_def)
  qed
qed

section \<open>Trimming\<close>

lemma trim_Nil [simp]: "trim [] = []"
  by (simp add: trim_def trimEnd_def trimStart_def)

lemma trimEnd_prefix: "\<exists>ws. s = trimEnd s @ ws"
proof -
  have "rev s = takeWhile is_ws (rev s) @ dropWhile is_ws (rev s)" by simp
  then have "s = rev (dropWhile is_ws (rev s)) @ rev (takeWhile is_ws (rev s))"
    by (metis rev_append rev_rev_ident)
  then show ?thesis unfolding trimEnd_def by blast
qed

lemma trimmed_trim: "trimmed (trim s)"
proof (cases "trim s = []")
  case True
  then show ?thesis by (simp add: trimmed_def)
next
  case False
  let ?t = "trimStart s"
  from False have tne: "?t \<noteq> []" by (auto simp: trim_def trimEnd_def)
  then have h: "\<not> is_ws (hd ?t)" unfolding trimStart_def by (rule hd_dropWhile)
  obtain ws where ws: "?t = trimEnd ?t @ ws" using trimEnd_prefix by blast
  from False have ne: "trimEnd ?t \<noteq> []" by (simp add: trim_def)
  with ws have "hd (trimEnd ?t) = hd ?t" by (metis hd_append2)
  with h have h1: "\<not> is_ws (hd (trim s))" by (simp add: trim_def)
  from ne have "dropWhile is_ws (rev ?t) \<noteq> []" by (simp add: trimEnd_def)
  then have "\<not> is_ws (hd (dropWhile is_ws (rev ?t)))" by (rule hd_dropWhile)
  moreover have "last (trimEnd ?t) = hd (dropWhile is_ws (rev ?t))"
    unfolding trimEnd_def by (simp add: last_rev)
  ultimately have "\<not> is_ws (last (trim s))" by (simp add: trim_def)
  with h1 show ?thesis by (simp add: trimmed_def)
qed

section \<open>What the parser returns, by the delimiters present\<close>

lemma strToQP_plain:
  assumes "\<not> startsWith text ''-----''" "indexOf text ''::'' = None"
    "indexOf text ''??'' = None"
  shows "strToQP text = Inr \<lparr>label = trim text, kind = None, alwaysShow = Some True,
     description = Some [], detail = Some []\<rparr>"
  using assms by (simp add: strToQP_def split2_char)

lemma strToQP_detail_only:
  assumes "\<not> startsWith text ''-----''" "indexOf text ''::'' = None"
    "indexOf text ''??'' = Some j"
  shows "strToQP text = Inr \<lparr>label = trim text, kind = None, alwaysShow = Some True,
     description = Some [], detail = Some (trim (drop (j + 2) text))\<rparr>"
  using assms by (simp add: strToQP_def split2_char)

lemma strToQP_desc:
  assumes "\<not> startsWith text ''-----''" "indexOf text ''::'' = Some i"
    "indexOf (drop (i + 2) text) ''??'' = None"
  shows "strToQP text = Inr \<lparr>label = trim (take i text), kind = None, alwaysShow = Some True,
     description = Some (trim (drop (i + 2) text)), detail = Some []\<rparr>"
  using assms by (simp add: strToQP_def split2_char)

lemma strToQP_desc_detail:
  assumes "\<not> startsWith text ''-----''" "indexOf text ''::'' = Some i"
    "indexOf (drop (i + 2) text) ''??'' = Some j"
  shows "strToQP text = Inr \<lparr>label = trim (take i text), kind = None, alwaysShow = Some True,
     description = Some (trim (take j (drop (i + 2) text))),
     detail = Some (trim (drop (j + 2) (drop (i + 2) text)))\<rparr>"
proof -
  from indexOf_bound [OF assms(3)] have "drop (i + 2) text \<noteq> []" by auto
  with assms show ?thesis by (simp add: strToQP_def split2_char)
qed

lemma strToQP_fields:
  assumes "\<not> startsWith text ''-----''"
  shows "\<exists>a b c. strToQP text = Inr \<lparr>label = trim a, kind = None, alwaysShow = Some True,
     description = Some (trim b), detail = Some (trim c)\<rparr>"
proof (cases "indexOf text ''::''")
  case None
  show ?thesis
  proof (cases "indexOf text ''??''")
    case n: None
    from strToQP_plain [OF assms None n] show ?thesis by (metis trim_Nil)
  next
    case (Some j)
    from strToQP_detail_only [OF assms None Some] show ?thesis by (metis trim_Nil)
  qed
next
  case (Some i)
  show ?thesis
  proof (cases "indexOf (drop (i + 2) text) ''??''")
    case None
    from strToQP_desc [OF assms Some None] show ?thesis by (metis trim_Nil)
  next
    case s: (Some j)
    from strToQP_desc_detail [OF assms Some s] show ?thesis by blast
  qed
qed

section \<open>Cutting at runs of a character class\<close>

lemma filter_dropWhile_neg:
  "filter (\<lambda>c. \<not> sep c) (dropWhile sep cs) = filter (\<lambda>c. \<not> sep c) cs"
  by (induction cs) simp_all

lemma concat_split_runs:
  "concat (split_runs sep cur s) = cur @ filter (\<lambda>c. \<not> sep c) s"
  by (induction sep cur s rule: split_runs.induct) (simp_all add: filter_dropWhile_neg)

lemma filter_nonempty_Nil: "(filter (\<lambda>w. w \<noteq> []) xs = []) = (concat xs = [])"
  by (induction xs) auto

lemma words_empty_iff:
  "(filter (\<lambda>w. w \<noteq> []) (regex_split (\<lambda>c. \<not> is_alnum c) s) = []) =
   (\<forall>c\<in>set s. \<not> is_alnum c)"
  by (simp add: filter_nonempty_Nil regex_split_def concat_split_runs filter_empty_conv)

lemma ws_not_alnum: "is_ws c \<Longrightarrow> \<not> is_alnum c"
  by (auto simp: is_ws_def is_alnum_def Let_def)

lemma filter_dropWhile_disjoint:
  "(\<And>x. Q x \<Longrightarrow> \<not> P x) \<Longrightarrow> filter P (dropWhile Q xs) = filter P xs"
  by (induction xs) auto

lemma filter_alnum_trim: "filter is_alnum (trim s) = filter is_alnum s"
proof -
  have a: "filter is_alnum (dropWhile is_ws xs) = filter is_alnum xs" for xs
    by (rule filter_dropWhile_disjoint) (rule ws_not_alnum)
  have "filter is_alnum (trimEnd xs) = filter is_alnum xs" for xs
    unfolding trimEnd_def by (simp add: a flip: rev_filter)
  then show ?thesis by (simp add: trim_def trimStart_def a)
qed

lemma alnum_trim: "(\<forall>c\<in>set (trim s). \<not> is_alnum c) = (\<forall>c\<in>set s. \<not> is_alnum c)"
proof -
  have "(filter is_alnum (trim s) = []) = (filter is_alnum s = [])"
    by (simp only: filter_alnum_trim)
  then show ?thesis by (simp only: filter_empty_conv)
qed

section \<open>The event loop\<close>

lemma run_stop: "earliest (timers w) = None \<Longrightarrow> run ticks horizon w = w"
  by (subst run.simps) simp

lemma run_late:
  "earliest (timers w) = Some t \<Longrightarrow> \<not> due t \<le> horizon \<Longrightarrow> run ticks horizon w = w"
  by (subst run.simps) simp

lemma run_step:
  "earliest (timers w) = Some t \<Longrightarrow> due t \<le> horizon \<Longrightarrow>
     run ticks horizon w = run ticks horizon (fire ticks t w)"
  by (subst run.simps) simp

lemma run_invariant_aux:
  "P w \<Longrightarrow>
   \<forall>t v. P v \<longrightarrow> earliest (timers v) = Some t \<longrightarrow> due t \<le> horizon \<longrightarrow> P (fire ticks t v) \<Longrightarrow>
   P (run ticks horizon w)"
proof (induction ticks horizon w rule: run.induct)
  case (1 ticks horizon w)
  show ?case
  proof (cases "earliest (timers w)")
    case None
    with "1.prems"(1) show ?thesis by (simp add: run_stop)
  next
    case (Some t)
    show ?thesis
    proof (cases "due t \<le> horizon")
      case True
      from "1.prems" Some True have "P (fire ticks t w)" by blast
      from "1.IH" [OF Some True this "1.prems"(2)] show ?thesis
        by (simp add: run_step [OF Some True])
    next
      case False
      with Some "1.prems"(1) show ?thesis by (simp add: run_late)
    qed
  qed
qed

lemma run_invariant:
  assumes "P w"
    and "\<And>t v. P v \<Longrightarrow> earliest (timers v) = Some t \<Longrightarrow> due t \<le> horizon \<Longrightarrow> P (fire ticks t v)"
  shows "P (run ticks horizon w)"
proof (rule run_invariant_aux)
  show "P w" by (rule assms(1))
  show "\<forall>t v. P v \<longrightarrow> earliest (timers v) = Some t \<longrightarrow> due t \<le> horizon \<longrightarrow> P (fire ticks t v)"
    using assms(2) by blast
qed

lemma cleared_fire: "cleared (fire ticks t w) = cleared w"
  by (cases "action t") (simp_all add: fire_def run_callback_def report_def Let_def)

lemma cleared_run: "cleared (run ticks horizon w) = cleared w"
  by (rule run_invariant [where P = "\<lambda>v. cleared v = cleared w"]) (simp_all add: cleared_fire)

lemma reports_fire:
  "reports (fire ticks t w) = reports w @
     (case action t of
        TickCb \<Rightarrow> [(max (clock w) (due t), Tick, 100 / ticks)]
      | JumpCb \<Rightarrow> [(max (clock w) (due t), Jump, 100)]
      | ResolveCb \<Rightarrow> [])"
  by (cases "action t") (simp_all add: fire_def run_callback_def report_def Let_def)








lemma timers_fire_cases:
  "u \<in> set (timers (fire ticks t w)) \<Longrightarrow>
     u \<in> set (timers w) \<or> (\<exists>p. period t = Some p \<and> u = t\<lparr>due := due t + max 1 p\<rparr>)"
  by (auto simp: timers_fire split: option.splits dest: set_remove1_subset [THEN subsetD])




section \<open>What the simulator schedules\<close>

lemmas tm_defs = temporaryMessage_def task_def setInterval_def setTimeout_def
  clearInterval_def report_def start_world_def Let_def

lemma temporaryMessage_inline_no_tick:
  "tick_reports (temporaryMessage TaskInline time ticks endLength) = [] \<and>
   (\<forall>u\<in>set (timers (temporaryMessage TaskInline time ticks endLength)). action u \<noteq> TickCb)"
  by (auto simp: tm_defs tick_reports_def)

lemma no_tick_fire:
  assumes "tick_reports v = [] \<and> (\<forall>u\<in>set (timers v). action u \<noteq> TickCb)"
    and "earliest (timers v) = Some t"
  shows "tick_reports (fire ticks t v) = [] \<and> (\<forall>u\<in>set (timers (fire ticks t v)). action u \<noteq> TickCb)"
proof -
  from earliest_in [OF assms(2)] assms(1) have nt: "action t \<noteq> TickCb" by blast
  then have "tick_reports (fire ticks t v) = []"
    using assms(1) by (cases "action t") (simp_all add: tick_reports_def reports_fire)
  moreover have "\<forall>u\<in>set (timers (fire ticks t v)). action u \<noteq> TickCb"
  proof
    fix u assume "u \<in> set (timers (fire ticks t v))"
    from timers_fire_cases [OF this] show "action u \<noteq> TickCb"
    proof
      assume "u \<in> set (timers v)"
      with assms(1) show ?thesis by blast
    next
      assume "\<exists>p. period t = Some p \<and> u = t\<lparr>due := due t + max 1 p\<rparr>"
      then have "action u = action t" by auto
      with nt show ?thesis by simp
    qed
  qed
  ultimately show ?thesis by blast
qed






section \<open>The claims about the quick-pick parser\<close>

text \<open>
  C1. The claim: for every input that begins with the marker \<open>-----\<close> the parser
  returns a separator entry whose label is the rest of the string after the marker,
  with leading white space stripped. The code takes \<open>text.slice(0, 5)\<close>, which is the
  marker itself, so for every such input the label of the separator entry is
  \<open>-----\<close>, whatever follows the marker.
\<close>

theorem strToQP_separator_label:
  "startsWith text ''-----'' \<Longrightarrow>
     strToQP text = Inr \<lparr>label = ''-----'', kind = Some ''SEP'', alwaysShow = None,
       description = None, detail = None\<rparr>"
proof -
  assume m: "startsWith text ''-----''"
  have "length ''-----'' = 5" by simp
  with m have t: "take 5 text = ''-----''" unfolding startsWith_def by metis
  have "trimStart ''-----'' = ''-----''" by (simp add: trimStart_def is_ws_def)
  with m t show ?thesis by (simp add: strToQP_def)
qed

theorem strToQP_separator_label_witness:
  "startsWith ''----- Section A'' ''-----'' \<and>
   strToQP ''----- Section A'' = Inr \<lparr>label = ''-----'', kind = Some ''SEP'',
     alwaysShow = None, description = None, detail = None\<rparr> \<and>
   ''-----'' \<noteq> ''Section A''"
  using strToQP_separator_label [of "''----- Section A''"] by (simp add: startsWith_def)

text \<open>
  C2, the claim as stated, at the input \<open>Desc??Detail\<close>: the input is no separator,
  has no \<open>::\<close>, and its remainder contains \<open>??\<close>; the description was not set by
  a \<open>::\<close> split, yet it is not set from the part before the \<open>??\<close>: it stays empty.
\<close>

theorem strToQP_description_unset_counterexample:
  "\<not> startsWith ''Desc??Detail'' ''-----'' \<and>
   indexOf ''Desc??Detail'' ''::'' = None \<and>
   indexOf (remainder ''Desc??Detail'') ''??'' = Some 4 \<and>
   strToQP ''Desc??Detail'' = Inr \<lparr>label = ''Desc??Detail'', kind = None,
     alwaysShow = Some True, description = Some '''', detail = Some ''Detail''\<rparr>"
  by code_simp

text \<open>
  C2, amended. For every input that is no separator and whose remainder (the part after
  the first \<open>::\<close>, or the whole string when there is none) contains \<open>??\<close>: the
  detail is the trimmed part after the first \<open>??\<close> of the remainder; the description
  is the trimmed part before that \<open>??\<close> when a \<open>::\<close> split has set the description
  before, and stays empty when the input has no \<open>::\<close>. In particular
  \<open>Label::Desc??Detail\<close> gives label \<open>Label\<close>, description \<open>Desc\<close> and detail
  \<open>Detail\<close>.
\<close>

theorem strToQP_detail_split:
  "(\<not> startsWith text ''-----'' \<and> indexOf (remainder text) ''??'' = Some j \<longrightarrow>
      (\<exists>r. strToQP text = Inr r \<and>
         detail r = Some (trim (drop (j + 2) (remainder text))) \<and>
         description r =
           Some (if indexOf text ''::'' = None then [] else trim (take j (remainder text))))) \<and>
   strToQP ''Label::Desc??Detail'' = Inr \<lparr>label = ''Label'', kind = None,
     alwaysShow = Some True, description = Some ''Desc'', detail = Some ''Detail''\<rparr>"
proof (intro conjI impI)
  assume a: "\<not> startsWith text ''-----'' \<and> indexOf (remainder text) ''??'' = Some j"
  show "\<exists>r. strToQP text = Inr r \<and>
         detail r = Some (trim (drop (j + 2) (remainder text))) \<and>
         description r =
           Some (if indexOf text ''::'' = None then [] else trim (take j (remainder text)))"
  proof (cases "indexOf text ''::''")
    case None
    with a have "indexOf text ''??'' = Some j" by (simp add: remainder_def)
    from strToQP_detail_only [OF conjunct1 [OF a] None this] None
    show ?thesis by (simp add: remainder_def)
  next
    case (Some i)
    with a have "indexOf (drop (i + 2) text) ''??'' = Some j" by (simp add: remainder_def)
    from strToQP_desc_detail [OF conjunct1 [OF a] Some this] Some
    show ?thesis by (simp add: remainder_def)
  qed
next
  show "strToQP ''Label::Desc??Detail'' = Inr \<lparr>label = ''Label'', kind = None,
     alwaysShow = Some True, description = Some ''Desc'', detail = Some ''Detail''\<rparr>"
    by code_simp
qed

theorem strToQP_detail_split_witness:
  "\<not> startsWith ''Desc??Detail'' ''-----'' \<and>
   indexOf (remainder ''Desc??Detail'') ''??'' = Some 4 \<and>
   (\<exists>r. strToQP ''Desc??Detail'' = Inr r \<and> detail r = Some ''Detail'' \<and>
      description r = Some [])"
proof -
  define t where "t = ''Desc??Detail''"
  have h: "\<not> startsWith t ''-----''" "indexOf (remainder t) ''??'' = Some 4"
    unfolding t_def by code_simp+
  have n: "indexOf t ''::'' = None" unfolding t_def by code_simp
  have d: "trim (drop (4 + 2) (remainder t)) = ''Detail''" unfolding t_def by code_simp
  from strToQP_detail_split [of t 4] h
  obtain r where "strToQP t = Inr r"
    "detail r = Some (trim (drop (4 + 2) (remainder t)))"
    "description r = Some (if indexOf t ''::'' = None then [] else trim (take 4 (remainder t)))"
    by blast
  with n d have "\<exists>r. strToQP t = Inr r \<and> detail r = Some ''Detail'' \<and> description r = Some []"
    by simp
  with h show ?thesis unfolding t_def by simp
qed

text \<open>
  C3. For every input that is no separator and contains \<open>::\<close>, with its leftmost
  occurrence at position \<open>i\<close>: the two-part split cuts at that occurrence only, the
  tail being everything after it, later occurrences of \<open>::\<close> included; the label is
  the trimmed part before it, and the \<open>??\<close> split is applied to that tail. In
  particular \<open>Label::Part1::Part2??Detail\<close> gives label \<open>Label\<close>, description
  \<open>Part1::Part2\<close> and detail \<open>Detail\<close>.
\<close>

theorem strToQP_first_label_delimiter:
  "(\<not> startsWith text ''-----'' \<and> indexOf text ''::'' = Some i \<longrightarrow>
      split2 text ''::'' = [take i text, drop (i + 2) text] \<and>
      (\<exists>r. strToQP text = Inr r \<and> label r = trim (take i text) \<and>
         description r = Some (trim (case indexOf (drop (i + 2) text) ''??'' of
                                      None \<Rightarrow> drop (i + 2) text
                                    | Some j \<Rightarrow> take j (drop (i + 2) text))) \<and>
         detail r = Some (trim (case indexOf (drop (i + 2) text) ''??'' of
                                  None \<Rightarrow> []
                                | Some j \<Rightarrow> drop (j + 2) (drop (i + 2) text))))) \<and>
   strToQP ''Label::Part1::Part2??Detail'' = Inr \<lparr>label = ''Label'', kind = None,
     alwaysShow = Some True, description = Some ''Part1::Part2'', detail = Some ''Detail''\<rparr>"
proof (intro conjI impI)
  assume a: "\<not> startsWith text ''-----'' \<and> indexOf text ''::'' = Some i"
  then show "split2 text ''::'' = [take i text, drop (i + 2) text]"
    by (simp add: split2_char)
  show "\<exists>r. strToQP text = Inr r \<and> label r = trim (take i text) \<and>
         description r = Some (trim (case indexOf (drop (i + 2) text) ''??'' of
                                      None \<Rightarrow> drop (i + 2) text
                                    | Some j \<Rightarrow> take j (drop (i + 2) text))) \<and>
         detail r = Some (trim (case indexOf (drop (i + 2) text) ''??'' of
                                  None \<Rightarrow> []
                                | Some j \<Rightarrow> drop (j + 2) (drop (i + 2) text)))"
  proof (cases "indexOf (drop (i + 2) text) ''??''")
    case None
    from strToQP_desc [OF conjunct1 [OF a] conjunct2 [OF a] None] None
    show ?thesis by simp
  next
    case (Some j)
    from strToQP_desc_detail [OF conjunct1 [OF a] conjunct2 [OF a] Some] Some
    show ?thesis by simp
  qed
next
  show "strToQP ''Label::Part1::Part2??Detail'' = Inr \<lparr>label = ''Label'', kind = None,
     alwaysShow = Some True, description = Some ''Part1::Part2'', detail = Some ''Detail''\<rparr>"
    by code_simp
qed

theorem strToQP_first_label_delimiter_witness:
  "\<not> startsWith ''a::b::c'' ''-----'' \<and> indexOf ''a::b::c'' ''::'' = Some 1 \<and>
   split2 ''a::b::c'' ''::'' = [''a'', ''b::c''] \<and>
   (\<exists>r. strToQP ''a::b::c'' = Inr r \<and> label r = ''a'' \<and>
      description r = Some ''b::c'' \<and> detail r = Some [])"
proof -
  define t where "t = ''a::b::c''"
  have h: "\<not> startsWith t ''-----''" "indexOf t ''::'' = Some 1"
    unfolding t_def by code_simp+
  have e: "take 1 t = ''a''" "drop (1 + 2) t = ''b::c''"
    unfolding t_def by simp_all
  have f: "indexOf ''b::c'' ''??'' = None" "trim ''a'' = ''a''" "trim ''b::c'' = ''b::c''"
    by code_simp+
  from strToQP_first_label_delimiter [of t 1] h
  obtain r where "split2 t ''::'' = [take 1 t, drop (1 + 2) t]" "strToQP t = Inr r"
    "label r = trim (take 1 t)"
    "description r = Some (trim (case indexOf (drop (1 + 2) t) ''??'' of
        None \<Rightarrow> drop (1 + 2) t | Some j \<Rightarrow> take j (drop (1 + 2) t)))"
    "detail r = Some (trim (case indexOf (drop (1 + 2) t) ''??'' of
        None \<Rightarrow> [] | Some j \<Rightarrow> drop (j + 2) (drop (1 + 2) t)))"
    by blast
  with e f have "split2 t ''::'' = [''a'', ''b::c''] \<and>
     (\<exists>r. strToQP t = Inr r \<and> label r = ''a'' \<and>
        description r = Some ''b::c'' \<and> detail r = Some [])"
    by simp
  with h show ?thesis unfolding t_def by simp
qed

text \<open>
  C7. For every input that is no separator, the parser returns an entry whose label,
  description and detail have no white space at either end. In particular the input
  \<open>  Label  ::  Desc  \<close> gives label \<open>Label\<close>, description \<open>Desc\<close> and an empty
  detail.
\<close>

theorem strToQP_fields_trimmed:
  "(\<not> startsWith text ''-----'' \<longrightarrow>
      (\<exists>l d e. strToQP text = Inr \<lparr>label = l, kind = None, alwaysShow = Some True,
          description = Some d, detail = Some e\<rparr> \<and>
        trimmed l \<and> trimmed d \<and> trimmed e)) \<and>
   strToQP ''  Label  ::  Desc  '' = Inr \<lparr>label = ''Label'', kind = None,
     alwaysShow = Some True, description = Some ''Desc'', detail = Some ''''\<rparr>"
proof (intro conjI impI)
  assume "\<not> startsWith text ''-----''"
  from strToQP_fields [OF this] show "\<exists>l d e. strToQP text = Inr \<lparr>label = l, kind = None,
      alwaysShow = Some True, description = Some d, detail = Some e\<rparr> \<and>
        trimmed l \<and> trimmed d \<and> trimmed e"
    using trimmed_trim by blast
next
  show "strToQP ''  Label  ::  Desc  '' = Inr \<lparr>label = ''Label'', kind = None,
     alwaysShow = Some True, description = Some ''Desc'', detail = Some ''''\<rparr>"
    by code_simp
qed

theorem strToQP_fields_trimmed_witness:
  "\<not> startsWith '' a :: b ?? c '' ''-----'' \<and>
   (\<exists>l d e. strToQP '' a :: b ?? c '' = Inr \<lparr>label = l, kind = None, alwaysShow = Some True,
          description = Some d, detail = Some e\<rparr> \<and>
        trimmed l \<and> trimmed d \<and> trimmed e)"
proof -
  define t where "t = '' a :: b ?? c ''"
  have h: "\<not> startsWith t ''-----''" unfolding t_def by code_simp
  have "\<not> startsWith t ''-----'' \<longrightarrow>
     (\<exists>l d e. strToQP t = Inr \<lparr>label = l, kind = None, alwaysShow = Some True,
          description = Some d, detail = Some e\<rparr> \<and>
        trimmed l \<and> trimmed d \<and> trimmed e)"
    using strToQP_fields_trimmed [of t] by (rule conjunct1)
  from this h have "\<exists>l d e. strToQP t = Inr \<lparr>label = l, kind = None, alwaysShow = Some True,
          description = Some d, detail = Some e\<rparr> \<and>
        trimmed l \<and> trimmed d \<and> trimmed e"
    by (rule mp)
  with h show ?thesis unfolding t_def by (rule conjI)
qed

text \<open>
  C8, the claim as stated, at the input \<open>-----\<close>: it has neither \<open>::\<close> nor \<open>??\<close>, and
  the entry returned for it has no description and no detail at all, rather than empty
  strings: the separator branch returns an object with a label and a kind only.
\<close>

theorem strToQP_separator_no_defaults_counterexample:
  "startsWith ''-----'' ''-----'' \<and>
   indexOf ''-----'' ''::'' = None \<and> indexOf ''-----'' ''??'' = None \<and>
   strToQP ''-----'' = Inr \<lparr>label = ''-----'', kind = Some ''SEP'', alwaysShow = None,
     description = None, detail = None\<rparr>"
  by code_simp

text \<open>
  C8, amended. The parser returns an entry for every string and never raises. For an
  input that is no separator the description is the empty string when the input has no
  \<open>::\<close>, and the detail is the empty string when the remainder has no \<open>??\<close>; a
  separator entry carries a label and a kind only, with no description and no detail.
  The empty string gives the entry whose three text fields are empty.
\<close>

theorem strToQP_total:
  "(\<exists>r. strToQP text = Inr r \<and>
      (startsWith text ''-----'' \<longrightarrow> description r = None \<and> detail r = None) \<and>
      (\<not> startsWith text ''-----'' \<longrightarrow>
         (indexOf text ''::'' = None \<longrightarrow> description r = Some []) \<and>
         (indexOf (remainder text) ''??'' = None \<longrightarrow> detail r = Some []))) \<and>
   strToQP [] = Inr \<lparr>label = [], kind = None, alwaysShow = Some True,
     description = Some [], detail = Some []\<rparr>"
proof (intro conjI)
  show "\<exists>r. strToQP text = Inr r \<and>
      (startsWith text ''-----'' \<longrightarrow> description r = None \<and> detail r = None) \<and>
      (\<not> startsWith text ''-----'' \<longrightarrow>
         (indexOf text ''::'' = None \<longrightarrow> description r = Some []) \<and>
         (indexOf (remainder text) ''??'' = None \<longrightarrow> detail r = Some []))"
  proof (cases "startsWith text ''-----''")
    case True
    then show ?thesis by (simp add: strToQP_def)
  next
    case ns: False
    show ?thesis
    proof (cases "indexOf text ''::''")
      case None
      show ?thesis
      proof (cases "indexOf text ''??''")
        case n: None
        from strToQP_plain [OF ns None n] ns None n show ?thesis
          by (simp add: remainder_def)
      next
        case (Some j)
        from strToQP_detail_only [OF ns None Some] ns None Some show ?thesis
          by (simp add: remainder_def)
      qed
    next
      case (Some i)
      show ?thesis
      proof (cases "indexOf (drop (i + 2) text) ''??''")
        case None
        from strToQP_desc [OF ns Some None] ns Some None show ?thesis
          by (simp add: remainder_def)
      next
        case s: (Some j)
        from strToQP_desc_detail [OF ns Some s] ns Some s show ?thesis
          by (simp add: remainder_def)
      qed
    qed
  qed
next
  show "strToQP [] = Inr \<lparr>label = [], kind = None, alwaysShow = Some True,
     description = Some [], detail = Some []\<rparr>"
    by code_simp
qed

theorem strToQP_total_witness:
  "\<not> startsWith ''JustLabel'' ''-----'' \<and> indexOf ''JustLabel'' ''::'' = None \<and>
   indexOf (remainder ''JustLabel'') ''??'' = None \<and>
   (\<exists>r. strToQP ''JustLabel'' = Inr r \<and> description r = Some [] \<and> detail r = Some [])"
proof -
  define t where "t = ''JustLabel''"
  have h: "\<not> startsWith t ''-----''" "indexOf t ''::'' = None"
      "indexOf (remainder t) ''??'' = None"
    unfolding t_def by code_simp+
  have "\<exists>r. strToQP t = Inr r \<and>
      (startsWith t ''-----'' \<longrightarrow> description r = None \<and> detail r = None) \<and>
      (\<not> startsWith t ''-----'' \<longrightarrow>
         (indexOf t ''::'' = None \<longrightarrow> description r = Some []) \<and>
         (indexOf (remainder t) ''??'' = None \<longrightarrow> detail r = Some []))"
    using strToQP_total [of t] by (rule conjunct1)
  then obtain r where r: "strToQP t = Inr r"
      and d: "\<not> startsWith t ''-----'' \<longrightarrow>
         (indexOf t ''::'' = None \<longrightarrow> description r = Some []) \<and>
         (indexOf (remainder t) ''??'' = None \<longrightarrow> detail r = Some [])"
    by (elim exE conjE)
  from d h have "description r = Some []" "detail r = Some []"
    by simp_all
  with r have "\<exists>r. strToQP t = Inr r \<and> description r = Some [] \<and> detail r = Some []"
    by (intro exI [of _ r] conjI)
  with h show ?thesis unfolding t_def by (intro conjI)
qed

section \<open>The claims about the timed progress simulator\<close>

text \<open>
  C4. The claim: invoked with duration 1000, 10 ticks and \<open>endLength\<close> 0, the interval
  issues exactly 10 reports of 10 each and the operation resolves no earlier than 1000
  ms after the invocation. In the code \<open>clearInterval(tickLoop)\<close> runs in the
  synchronous run that called \<open>withProgress\<close>. With a host that calls the function
  inline, the interval is cleared before its first tick: for every duration, number of
  ticks, \<open>endLength\<close> and horizon the interval issues no report at all, and at the
  claim's input the only report is the initial one, the operation resolving at 1000.
  With a host that calls the function later, \<open>clearInterval(-1)\<close> clears nothing and the
  interval is never stopped: at the claim's input an 11th report is issued at 1100,
  after the operation has resolved at 1000.
\<close>

theorem temporaryMessage_ticks_never_or_forever:
  "tick_reports (run ticks horizon (temporaryMessage TaskInline time ticks endLength)) = [] \<and>
   reports (run 10 1000 (temporaryMessage TaskInline 1000 10 0)) = [(0, Initial, 0)] \<and>
   resolved_at (run 10 1000 (temporaryMessage TaskInline 1000 10 0)) = Some 1000 \<and>
   tick_reports (run 10 1100 (temporaryMessage TaskDeferred 1000 10 0)) =
     [(100, Tick, 10), (200, Tick, 10), (300, Tick, 10), (400, Tick, 10), (500, Tick, 10),
      (600, Tick, 10), (700, Tick, 10), (800, Tick, 10), (900, Tick, 10), (1000, Tick, 10),
      (1100, Tick, 10)] \<and>
   resolved_at (run 10 1100 (temporaryMessage TaskDeferred 1000 10 0)) = Some 1000"
proof (intro conjI)
  let ?P = "\<lambda>v. tick_reports v = [] \<and> (\<forall>u\<in>set (timers v). action u \<noteq> TickCb)"
  have "?P (run ticks horizon (temporaryMessage TaskInline time ticks endLength))"
  proof (rule run_invariant [where P = ?P])
    show "?P (temporaryMessage TaskInline time ticks endLength)"
      by (rule temporaryMessage_inline_no_tick)
  next
    fix t v assume "?P v" "earliest (timers v) = Some t"
    then show "?P (fire ticks t v)" by (rule no_tick_fire)
  qed
  then show "tick_reports (run ticks horizon (temporaryMessage TaskInline time ticks endLength)) = []"
    by blast
next
  show "reports (run 10 1000 (temporaryMessage TaskInline 1000 10 0)) = [(0, Initial, 0)]"
    by code_simp
  show "resolved_at (run 10 1000 (temporaryMessage TaskInline 1000 10 0)) = Some 1000"
    by code_simp
  show "tick_reports (run 10 1100 (temporaryMessage TaskDeferred 1000 10 0)) =
     [(100, Tick, 10), (200, Tick, 10), (300, Tick, 10), (400, Tick, 10), (500, Tick, 10),
      (600, Tick, 10), (700, Tick, 10), (800, Tick, 10), (900, Tick, 10), (1000, Tick, 10),
      (1100, Tick, 10)]"
    by code_simp
  show "resolved_at (run 10 1100 (temporaryMessage TaskDeferred 1000 10 0)) = Some 1000"
    by code_simp
qed

text \<open>
  C5. The claim: the interval is cleared only when the whole wait is over. In the code,
  for every host, duration, number of ticks and \<open>endLength\<close>, the only call of
  \<open>clearInterval\<close> that is ever made is made at clock 0, when the operation has not
  resolved. At duration 1000 with 10 ticks and \<open>endLength\<close> 0 the operation resolves at
  1000; with the inline host the interval is gone from the timers when
  \<open>temporaryMessage\<close> returns, and with the deferred host the interval is still pending
  after the operation has resolved.
\<close>

theorem clearInterval_at_invocation:
  "cleared (run ticks horizon (temporaryMessage h time ticks endLength)) =
     [(0, case h of TaskInline \<Rightarrow> 1 | TaskDeferred \<Rightarrow> - 1)] \<and>
   resolved_at (temporaryMessage h time ticks endLength) = None \<and>
   resolved_at (run 10 1000 (temporaryMessage TaskInline 1000 10 0)) = Some 1000 \<and>
   resolved_at (run 10 1000 (temporaryMessage TaskDeferred 1000 10 0)) = Some 1000 \<and>
   map action (timers (temporaryMessage TaskInline 1000 10 0)) = [ResolveCb] \<and>
   map action (timers (run 10 1000 (temporaryMessage TaskDeferred 1000 10 0))) = [TickCb]"
proof (intro conjI)
  show "cleared (run ticks horizon (temporaryMessage h time ticks endLength)) =
     [(0, case h of TaskInline \<Rightarrow> 1 | TaskDeferred \<Rightarrow> - 1)]"
    by (cases h) (simp_all add: cleared_run tm_defs)
  show "resolved_at (temporaryMessage h time ticks endLength) = None"
    by (cases h) (simp_all add: tm_defs)
  show "resolved_at (run 10 1000 (temporaryMessage TaskInline 1000 10 0)) = Some 1000"
    by code_simp
  show "resolved_at (run 10 1000 (temporaryMessage TaskDeferred 1000 10 0)) = Some 1000"
    by code_simp
  show "map action (timers (temporaryMessage TaskInline 1000 10 0)) = [ResolveCb]"
    by code_simp
  show "map action (timers (run 10 1000 (temporaryMessage TaskDeferred 1000 10 0))) = [TickCb]"
    by code_simp
qed




section \<open>The claims about the text utilities\<close>

text \<open>
  C9. \<open>camelize\<close> raises \<open>TypeError\<close> exactly for the inputs with no letter and no
  digit: it raises for every such input, the empty string among them, and returns a
  string for every input that has a letter or a digit.
\<close>

theorem camelize_throws:
  "(camelize text keepOuterUnderscores = Inl TypeError) = (\<forall>c\<in>set text. \<not> is_alnum c) \<and>
   ((\<exists>c\<in>set text. is_alnum c) = (\<exists>s. camelize text keepOuterUnderscores = Inr s)) \<and>
   camelize [] keepOuterUnderscores = Inl TypeError"
proof -
  let ?words = "filter (\<lambda>w. w \<noteq> []) (regex_split (\<lambda>c. \<not> is_alnum c) (trim text))"
  have w: "(?words = []) = (\<forall>c\<in>set text. \<not> is_alnum c)"
    by (simp only: words_empty_iff alnum_trim)
  have t: "(camelize text keepOuterUnderscores = Inl TypeError) = (?words = [])"
    by (cases ?words) (simp_all add: camelize_def Let_def)
  have r: "(\<exists>s. camelize text keepOuterUnderscores = Inr s) = (?words \<noteq> [])"
    by (cases ?words) (simp_all add: camelize_def Let_def)
  have e: "camelize [] keepOuterUnderscores = Inl TypeError"
    by (simp add: camelize_def Let_def regex_split_def)
  from w t r e show ?thesis by blast
qed

theorem camelize_throws_witness:
  "filter is_alnum ''-- __'' = [] \<and> camelize ''-- __'' True = Inl TypeError"
proof -
  define t where "t = ''-- __''"
  have f: "filter is_alnum t = []" unfolding t_def by (simp add: is_alnum_def)
  then have h: "\<forall>c\<in>set t. \<not> is_alnum c" by (simp only: filter_empty_conv)
  have "(camelize t True = Inl TypeError) = (\<forall>c\<in>set t. \<not> is_alnum c)"
    using camelize_throws [of t True] by (rule conjunct1)
  with h have "camelize t True = Inl TypeError" by (rule_tac iffD2)
  with f show ?thesis unfolding t_def by (rule conjI)
qed

text \<open>
  C10. \<open>withinCharLimit\<close> loses words: there are a text, a limit and a non-empty word
  of the text that is part of no line of the output (nor of the joined output). The
  proof takes the text \<open>hello world foo\<close> with limit 8 and the empty prefix: \<open>world\<close>
  does not fit after \<open>hello\<close>, the line \<open>hello\<close> is flushed, and the loop goes on to
  \<open>foo\<close> without \<open>world\<close>; the output is \<open>hello\<close>, \<open>foo\<close>.
\<close>

theorem withinCharLimit_drops_word:
  "regex_split is_ws ''hello world foo'' = [''hello'', ''world'', ''foo''] \<and>
   withinCharLimit ''hello world foo'' 8 [] True = Lines [''hello'', ''foo''] \<and>
   withinCharLimit ''hello world foo'' 8 [] False = Joined ''hello\<newline>foo'' \<and>
   (\<exists>text limit w. w \<in> set (regex_split is_ws text) \<and> w \<noteq> [] \<and>
     (\<exists>ls. withinCharLimit text limit [] True = Lines ls \<and> \<not> (\<exists>l\<in>set ls. sublist w l)) \<and>
     (\<exists>s. withinCharLimit text limit [] False = Joined s \<and> \<not> sublist w s))"
proof -
  have a: "regex_split is_ws ''hello world foo'' = [''hello'', ''world'', ''foo'']"
    by code_simp
  have b: "withinCharLimit ''hello world foo'' 8 [] True = Lines [''hello'', ''foo'']"
    by code_simp
  have c: "withinCharLimit ''hello world foo'' 8 [] False = Joined ''hello\<newline>foo''"
    by code_simp
  have d: "\<not> sublist ''world'' ''hello''" "\<not> sublist ''world'' ''foo''"
    "\<not> sublist ''world'' ''hello\<newline>foo''"
    by code_simp+
  have "''world'' \<in> set (regex_split is_ws ''hello world foo'') \<and> ''world'' \<noteq> [] \<and>
     (\<exists>ls. withinCharLimit ''hello world foo'' 8 [] True = Lines ls \<and>
        \<not> (\<exists>l\<in>set ls. sublist ''world'' l)) \<and>
     (\<exists>s. withinCharLimit ''hello world foo'' 8 [] False = Joined s \<and>
        \<not> sublist ''world'' s)"
    unfolding a b c using d by simp
  then have "\<exists>text limit w. w \<in> set (regex_split is_ws text) \<and> w \<noteq> [] \<and>
     (\<exists>ls. withinCharLimit text limit [] True = Lines ls \<and> \<not> (\<exists>l\<in>set ls. sublist w l)) \<and>
     (\<exists>s. withinCharLimit text limit [] False = Joined s \<and> \<not> sublist w s)"
    by blast
  with a b c show ?thesis by (intro conjI)
qed

end
